theory Spec2Isabelle
  imports Main "HOL-Library.Sublist"
begin

section \<open>The form store of POD: record store and inverted index\<close>

text \<open>
  The Go program keeps three package-level variables behind one \<open>sync.RWMutex\<close>:
  \<^verbatim>\<open>keyToFiles\<close> and \<^verbatim>\<open>valueToFiles\<close> (both \<^verbatim>\<open>map[string][]string\<close>) and the slice
  \<^verbatim>\<open>storedFiles\<close>. Every function below runs with the lock held for its whole body, so
  each is one atomic step on the record of the three variables.

  A Go string is a sequence of bytes: \<open>string\<close> (a list of 8-bit characters).
  A \<^verbatim>\<open>map[string][]string\<close> that the code only iterates over (the submitted form, the
  query) is an association list: the list order is the order in which one
  \<^verbatim>\<open>range\<close> loop visits the entries, which Go leaves unspecified. The theorems
  quantify over every such list, hence over every iteration order.
\<close>

subsection \<open>Global state\<close>

type_synonym fileIndex = "string \<rightharpoonup> string list"

type_synonym form = "(string \<times> string list) list"

record store =
  keyToFiles :: fileIndex
  valueToFiles :: fileIndex
  storedFiles :: "string list"

definition initStore :: store where
  "initStore = \<lparr>keyToFiles = Map.empty, valueToFiles = Map.empty, storedFiles = []\<rparr>"

text \<open>Reading a Go map at an absent key gives the zero value, the nil slice.\<close>

definition filesOf :: "fileIndex \<Rightarrow> string \<Rightarrow> string list" where
  "filesOf m k = (case m k of None \<Rightarrow> [] | Some fs \<Rightarrow> fs)"

subsection \<open>\<^verbatim>\<open>strings.TrimSpace\<close>\<close>

text \<open>
  \<^verbatim>\<open>strings.TrimSpace\<close> removes every leading and every trailing code point for which
  \<^verbatim>\<open>unicode.IsSpace\<close> holds. On the bytes of the string these are the UTF-8 encodings
  listed in \<open>spaceSeqs\<close>: tab, line feed, vertical tab, form feed, carriage return,
  space, U+0085, U+00A0, U+1680, U+2000 to U+200A, U+2028, U+2029, U+202F, U+205F and
  U+3000. A byte that starts no such encoding (an invalid byte included, which decodes
  to U+FFFD) stops the trimming.
\<close>

definition spaceSeqs :: "string list" where
  "spaceSeqs =
    [[CHR 0x09], [CHR 0x0A], [CHR 0x0B], [CHR 0x0C], [CHR 0x0D], [CHR 0x20],
     [CHR 0xC2, CHR 0x85], [CHR 0xC2, CHR 0xA0],
     [CHR 0xE1, CHR 0x9A, CHR 0x80],
     [CHR 0xE2, CHR 0x80, CHR 0x80], [CHR 0xE2, CHR 0x80, CHR 0x81],
     [CHR 0xE2, CHR 0x80, CHR 0x82], [CHR 0xE2, CHR 0x80, CHR 0x83],
     [CHR 0xE2, CHR 0x80, CHR 0x84], [CHR 0xE2, CHR 0x80, CHR 0x85],
     [CHR 0xE2, CHR 0x80, CHR 0x86], [CHR 0xE2, CHR 0x80, CHR 0x87],
     [CHR 0xE2, CHR 0x80, CHR 0x88], [CHR 0xE2, CHR 0x80, CHR 0x89],
     [CHR 0xE2, CHR 0x80, CHR 0x8A],
     [CHR 0xE2, CHR 0x80, CHR 0xA8], [CHR 0xE2, CHR 0x80, CHR 0xA9],
     [CHR 0xE2, CHR 0x80, CHR 0xAF],
     [CHR 0xE2, CHR 0x81, CHR 0x9F],
     [CHR 0xE3, CHR 0x80, CHR 0x80]]"

text \<open>
  \<open>stripSeqs ws s\<close> removes from the front of \<open>s\<close> every occurrence of a sequence of
  the table \<open>ws\<close> (whose entries are non-empty), until \<open>s\<close> starts with none.
\<close>

fun stripSeqs :: "string list \<Rightarrow> string \<Rightarrow> string" where
  "stripSeqs ws [] = []"
| "stripSeqs ws (c # cs) =
     (case find (\<lambda>w. prefix w (c # cs)) ws of
        None \<Rightarrow> c # cs
      | Some w \<Rightarrow> stripSeqs ws (drop (length w - 1) cs))"

definition TrimLeft :: "string \<Rightarrow> string" where
  "TrimLeft s = stripSeqs spaceSeqs s"

definition TrimRight :: "string \<Rightarrow> string" where
  "TrimRight s = rev (stripSeqs (map rev spaceSeqs) (rev s))"

definition TrimSpace :: "string \<Rightarrow> string" where
  "TrimSpace s = TrimRight (TrimLeft s)"

subsection \<open>\<^verbatim>\<open>indexFile\<close>\<close>

text \<open>
  The inner loop of \<^verbatim>\<open>indexFile\<close>:
  \<^verbatim>\<open>for _, v := range vals { v = strings.TrimSpace(v); if v == "" { continue };
     valueToFiles[v] = append(valueToFiles[v], baseName) }\<close>
\<close>

fun indexValues :: "string \<Rightarrow> string list \<Rightarrow> fileIndex \<Rightarrow> fileIndex" where
  "indexValues baseName [] vtf = vtf"
| "indexValues baseName (v # vals) vtf =
     (let v' = TrimSpace v in
      if v' = [] then indexValues baseName vals vtf
      else indexValues baseName vals (vtf(v' \<mapsto> filesOf vtf v' @ [baseName])))"

text \<open>
  The outer loop: a key that is empty after trimming is skipped together with its
  values (\<^verbatim>\<open>continue\<close>); otherwise the file is appended to the key's list and the
  values are indexed.
\<close>

fun indexEntries :: "string \<Rightarrow> form \<Rightarrow> store \<Rightarrow> store" where
  "indexEntries baseName [] s = s"
| "indexEntries baseName ((k, vals) # rest) s =
     (let k' = TrimSpace k in
      if k' = [] then indexEntries baseName rest s
      else indexEntries baseName rest
             (s\<lparr>keyToFiles := (keyToFiles s)(k' \<mapsto> filesOf (keyToFiles s) k' @ [baseName]),
                valueToFiles := indexValues baseName vals (valueToFiles s)\<rparr>))"

definition indexFile :: "string \<Rightarrow> form \<Rightarrow> store \<Rightarrow> store" where
  "indexFile baseName form s =
     indexEntries baseName form (s\<lparr>storedFiles := storedFiles s @ [baseName]\<rparr>)"

text \<open>A history of the store: the calls of \<^verbatim>\<open>indexFile\<close> made so far, oldest first.\<close>

fun indexAll :: "(string \<times> form) list \<Rightarrow> store \<Rightarrow> store" where
  "indexAll [] s = s"
| "indexAll ((baseName, form) # calls) s = indexAll calls (indexFile baseName form s)"

subsection \<open>\<^verbatim>\<open>filesMatchingQuery\<close>\<close>

text \<open>
  The candidate set of one queried key, the map \<^verbatim>\<open>tmp\<close> of the loop body: the files
  listed under the key, narrowed, when values are given, to those listed under one of
  the values in \<^verbatim>\<open>valueToFiles\<close>.
\<close>

definition filterByValues :: "store \<Rightarrow> string list \<Rightarrow> string set \<Rightarrow> string set" where
  "filterByValues s qvs tmp =
     fold (\<lambda>val filtered.
             fold (\<lambda>fn filtered. if fn \<in> tmp then insert fn filtered else filtered)
                  (filesOf (valueToFiles s) val) filtered)
          qvs {}"

definition candidatesOf :: "store \<Rightarrow> string \<Rightarrow> string list \<Rightarrow> string set" where
  "candidatesOf s qk qvs =
     (let filesWithKey = filesOf (keyToFiles s) qk;
          tmp = fold insert filesWithKey {}
      in if length qvs > 0 then filterByValues s qvs tmp else tmp)"

text \<open>
  The loop over the query, with its variables \<^verbatim>\<open>candidateSet\<close> and \<^verbatim>\<open>first\<close>; it stops
  (\<^verbatim>\<open>break\<close>) as soon as the candidate set is empty.
\<close>

fun queryLoop :: "store \<Rightarrow> form \<Rightarrow> string set \<Rightarrow> bool \<Rightarrow> string set" where
  "queryLoop s [] candidateSet first = candidateSet"
| "queryLoop s ((qk, qvs) # rest) candidateSet first =
     (let tmp = candidatesOf s qk qvs;
          candidateSet' = (if first then tmp else Set.filter (\<lambda>fn. fn \<in> tmp) candidateSet)
      in if candidateSet' = {} then candidateSet'
         else queryLoop s rest candidateSet' False)"

definition filesMatchingQuery :: "store \<Rightarrow> form \<Rightarrow> string list" where
  "filesMatchingQuery s query =
     (if length query = 0 then storedFiles s
      else filter (\<lambda>fn. fn \<in> queryLoop s query {} True) (storedFiles s))"

subsection \<open>\<^verbatim>\<open>writeFormFile\<close> and the POST branch of the handler\<close>

text \<open>
  \<^verbatim>\<open>fmt.Sprintf("form_%d", ts)\<close> prints the clock reading in decimal, with a minus sign
  when it is negative.
\<close>

fun fmtNat :: "nat \<Rightarrow> string" where
  "fmtNat n = (if n < 10 then [''0123456789'' ! n]
               else fmtNat (n div 10) @ [''0123456789'' ! (n mod 10)])"

declare fmtNat.simps [simp del]

definition fmtInt :: "int \<Rightarrow> string" where
  "fmtInt i = (if i < 0 then CHR ''-'' # fmtNat (nat (- i)) else fmtNat (nat i))"

text \<open>
  \<^verbatim>\<open>writeFormFile\<close> reads the clock (\<^verbatim>\<open>ts := time.Now().UnixNano()\<close>, an \<^verbatim>\<open>int64\<close>),
  names the file after the reading alone, and writes the file. The clock reading and
  the outcomes of \<^verbatim>\<open>os.MkdirAll\<close> and \<^verbatim>\<open>os.Create\<close> are inputs of the model; the
  content of the file, which the index never reads, is left out.
\<close>

datatype ioError = MkdirAllFailed | CreateFailed

definition writeFormFile :: "int \<Rightarrow> bool \<Rightarrow> bool \<Rightarrow> form \<Rightarrow> ioError + string" where
  "writeFormFile ts mkdirOk createOk form =
     (let baseName = ''form_'' @ fmtInt ts in
      if \<not> mkdirOk then Inl MkdirAllFailed
      else if \<not> createOk then Inl CreateFailed
      else Inr baseName)"

text \<open>
  The POST branch of \<^verbatim>\<open>handler\<close>, after the form is parsed: an empty form is refused,
  a failed write is reported, otherwise the file is written and indexed.
\<close>

datatype response = BadRequest | InternalServerError | Saved string

definition handlerPost :: "int \<Rightarrow> bool \<Rightarrow> bool \<Rightarrow> form \<Rightarrow> store \<Rightarrow> response \<times> store" where
  "handlerPost ts mkdirOk createOk postForm s =
     (if length postForm = 0 then (BadRequest, s)
      else case writeFormFile ts mkdirOk createOk postForm of
             Inl err \<Rightarrow> (InternalServerError, s)
           | Inr baseName \<Rightarrow> (Saved baseName, indexFile baseName postForm s))"

subsection \<open>An invariant of the store\<close>

text \<open>Every file listed in the key index is a stored file.\<close>

definition indexedAreStored :: "store \<Rightarrow> bool" where
  "indexedAreStored s \<longleftrightarrow> (\<forall>x. set (filesOf (keyToFiles s) x) \<subseteq> set (storedFiles s))"

section \<open>Lemmas\<close>

subsection \<open>The query loop\<close>

lemma fold_insert_set: "fold insert xs A = set xs \<union> A"
  by (induction xs arbitrary: A) auto

lemma fold_keep_members:
  "fold (\<lambda>fn filtered. if fn \<in> tmp then insert fn filtered else filtered) xs A
     = A \<union> (set xs \<inter> tmp)"
  by (induction xs arbitrary: A) auto

lemma fold_values_members:
  "fold (\<lambda>val filtered.
           fold (\<lambda>fn filtered. if fn \<in> tmp then insert fn filtered else filtered)
                (filesOf m val) filtered) qvs A
     = A \<union> {fn \<in> tmp. \<exists>v\<in>set qvs. fn \<in> set (filesOf m v)}"
  by (induction qvs arbitrary: A) (auto simp: fold_keep_members)

lemma filterByValues_eq:
  "filterByValues s qvs tmp = {fn \<in> tmp. \<exists>v\<in>set qvs. fn \<in> set (filesOf (valueToFiles s) v)}"
  by (simp add: filterByValues_def fold_values_members)

lemma candidatesOf_eq:
  "candidatesOf s qk qvs =
     (if qvs = [] then set (filesOf (keyToFiles s) qk)
      else {fn \<in> set (filesOf (keyToFiles s) qk).
              \<exists>v\<in>set qvs. fn \<in> set (filesOf (valueToFiles s) v)})"
  by (simp add: candidatesOf_def Let_def filterByValues_eq fold_insert_set)

lemma queryLoop_rest:
  "queryLoop s q C False = C \<inter> (\<Inter>(k, vs)\<in>set q. candidatesOf s k vs)"
proof (induction q arbitrary: C)
  case Nil
  then show ?case by simp
next
  case (Cons e q)
  obtain k vs where e: "e = (k, vs)" by (cases e)
  define C' where "C' = Set.filter (\<lambda>fn. fn \<in> candidatesOf s k vs) C"
  have C': "C' = C \<inter> candidatesOf s k vs"
    by (auto simp: C'_def)
  have step: "queryLoop s (e # q) C False = (if C' = {} then C' else queryLoop s q C' False)"
    by (auto simp: e C'_def Let_def)
  have inter: "C \<inter> (\<Inter>(k, vs)\<in>set (e # q). candidatesOf s k vs)
                = C' \<inter> (\<Inter>(k, vs)\<in>set q. candidatesOf s k vs)"
    by (auto simp: e C')
  show ?case
    unfolding step inter by (cases "C' = {}") (simp_all add: Cons.IH)
qed

lemma queryLoop_first:
  assumes "q \<noteq> []"
  shows "queryLoop s q C True = (\<Inter>(k, vs)\<in>set q. candidatesOf s k vs)"
proof -
  from assms obtain k vs r where q: "q = (k, vs) # r"
    by (cases q) auto
  define C' where "C' = candidatesOf s k vs"
  have step: "queryLoop s q C True = (if C' = {} then C' else queryLoop s r C' False)"
    by (auto simp: q C'_def Let_def)
  have inter: "(\<Inter>(k, vs)\<in>set q. candidatesOf s k vs)
                = C' \<inter> (\<Inter>(k, vs)\<in>set r. candidatesOf s k vs)"
    by (auto simp: q C'_def)
  show ?thesis
    unfolding step inter by (cases "C' = {}") (simp_all add: queryLoop_rest)
qed

lemma filesMatchingQuery_filter:
  "q \<noteq> [] \<Longrightarrow>
   filesMatchingQuery s q =
     filter (\<lambda>fn. \<forall>(k, vs)\<in>set q. fn \<in> candidatesOf s k vs) (storedFiles s)"
  by (auto simp: filesMatchingQuery_def queryLoop_first intro!: filter_cong)

subsection \<open>The index after \<^verbatim>\<open>indexFile\<close>\<close>

lemma filesOf_upd:
  "filesOf (m(k \<mapsto> fs)) x = (if x = k then fs else filesOf m x)"
  by (simp add: filesOf_def)

lemma set_indexValues:
  "set (filesOf (indexValues b vals vtf) x) =
     set (filesOf vtf x) \<union> (if x \<noteq> [] \<and> x \<in> TrimSpace ` set vals then {b} else {})"
  by (induction vals arbitrary: vtf) (auto simp: Let_def filesOf_upd)

lemma storedFiles_indexEntries: "storedFiles (indexEntries b form s) = storedFiles s"
  by (induction form arbitrary: s) (auto simp: Let_def)

lemma set_keyToFiles_indexEntries:
  "set (filesOf (keyToFiles (indexEntries b form s)) x) =
     set (filesOf (keyToFiles s) x) \<union>
     (if x \<noteq> [] \<and> x \<in> TrimSpace ` fst ` set form then {b} else {})"
proof (induction form arbitrary: s)
  case Nil
  show ?case by simp
next
  case (Cons e form)
  obtain k vals where e: "e = (k, vals)" by (cases e)
  show ?case
  proof (cases "TrimSpace k = []")
    case True
    then have "indexEntries b (e # form) s = indexEntries b form s"
      by (simp add: e)
    moreover from True have "(x \<noteq> [] \<and> x \<in> TrimSpace ` fst ` set (e # form))
        = (x \<noteq> [] \<and> x \<in> TrimSpace ` fst ` set form)"
      by (auto simp: e)
    ultimately show ?thesis by (simp only: Cons.IH)
  next
    case False
    define s' where "s' = s\<lparr>keyToFiles := (keyToFiles s)(TrimSpace k \<mapsto> filesOf (keyToFiles s) (TrimSpace k) @ [b]),
                valueToFiles := indexValues b vals (valueToFiles s)\<rparr>"
    from False have step: "indexEntries b (e # form) s = indexEntries b form s'"
      by (simp add: e s'_def Let_def)
    have "set (filesOf (keyToFiles s') x) =
            set (filesOf (keyToFiles s) x) \<union> (if x = TrimSpace k then {b} else {})"
      by (simp add: s'_def filesOf_upd)
    with False show ?thesis
      unfolding step Cons.IH by (auto simp: e)
  qed
qed

lemma set_valueToFiles_indexEntries:
  "set (filesOf (valueToFiles (indexEntries b form s)) x) =
     set (filesOf (valueToFiles s) x) \<union>
     (if x \<noteq> [] \<and> (\<exists>(k, vals)\<in>set form. TrimSpace k \<noteq> [] \<and> x \<in> TrimSpace ` set vals)
      then {b} else {})"
proof (induction form arbitrary: s)
  case Nil
  show ?case by simp
next
  case (Cons e form)
  obtain k vals where e: "e = (k, vals)" by (cases e)
  show ?case
  proof (cases "TrimSpace k = []")
    case True
    then have "indexEntries b (e # form) s = indexEntries b form s"
      by (simp add: e)
    moreover from True have "(\<exists>(k, vals)\<in>set (e # form). TrimSpace k \<noteq> [] \<and> x \<in> TrimSpace ` set vals)
        = (\<exists>(k, vals)\<in>set form. TrimSpace k \<noteq> [] \<and> x \<in> TrimSpace ` set vals)"
      by (auto simp: e)
    ultimately show ?thesis by (simp only: Cons.IH)
  next
    case False
    define s' where "s' = s\<lparr>keyToFiles := (keyToFiles s)(TrimSpace k \<mapsto> filesOf (keyToFiles s) (TrimSpace k) @ [b]),
                valueToFiles := indexValues b vals (valueToFiles s)\<rparr>"
    from False have step: "indexEntries b (e # form) s = indexEntries b form s'"
      by (simp add: e s'_def Let_def)
    have "set (filesOf (valueToFiles s') x) =
            set (filesOf (valueToFiles s) x) \<union>
            (if x \<noteq> [] \<and> x \<in> TrimSpace ` set vals then {b} else {})"
      by (simp add: s'_def set_indexValues)
    with False show ?thesis
      unfolding step Cons.IH by (auto simp: e)
  qed
qed

lemma storedFiles_indexFile: "storedFiles (indexFile b form s) = storedFiles s @ [b]"
  by (simp add: indexFile_def storedFiles_indexEntries)

lemma set_keyToFiles_indexFile:
  "set (filesOf (keyToFiles (indexFile b form s)) x) =
     set (filesOf (keyToFiles s) x) \<union>
     (if x \<noteq> [] \<and> x \<in> TrimSpace ` fst ` set form then {b} else {})"
  by (simp add: indexFile_def set_keyToFiles_indexEntries)

lemma set_valueToFiles_indexFile:
  "set (filesOf (valueToFiles (indexFile b form s)) x) =
     set (filesOf (valueToFiles s) x) \<union>
     (if x \<noteq> [] \<and> (\<exists>(k, vals)\<in>set form. TrimSpace k \<noteq> [] \<and> x \<in> TrimSpace ` set vals)
      then {b} else {})"
  by (simp add: indexFile_def set_valueToFiles_indexEntries)

lemma storedFiles_indexAll: "storedFiles (indexAll calls s) = storedFiles s @ map fst calls"
  by (induction calls arbitrary: s) (auto simp: storedFiles_indexFile)

lemma keyToFiles_indexAll_mono:
  "set (filesOf (keyToFiles s) x) \<subseteq> set (filesOf (keyToFiles (indexAll calls s)) x)"
proof (induction calls arbitrary: s)
  case Nil
  show ?case by simp
next
  case (Cons c calls)
  obtain b form where c: "c = (b, form)" by (cases c)
  have "set (filesOf (keyToFiles s) x) \<subseteq> set (filesOf (keyToFiles (indexFile b form s)) x)"
    by (simp add: set_keyToFiles_indexFile)
  also have "\<dots> \<subseteq> set (filesOf (keyToFiles (indexAll calls (indexFile b form s))) x)"
    by (rule Cons.IH)
  finally show ?case by (simp add: c)
qed

lemma valueToFiles_indexAll_mono:
  "set (filesOf (valueToFiles s) x) \<subseteq> set (filesOf (valueToFiles (indexAll calls s)) x)"
proof (induction calls arbitrary: s)
  case Nil
  show ?case by simp
next
  case (Cons c calls)
  obtain b form where c: "c = (b, form)" by (cases c)
  have "set (filesOf (valueToFiles s) x) \<subseteq> set (filesOf (valueToFiles (indexFile b form s)) x)"
    by (simp add: set_valueToFiles_indexFile)
  also have "\<dots> \<subseteq> set (filesOf (valueToFiles (indexAll calls (indexFile b form s))) x)"
    by (rule Cons.IH)
  finally show ?case by (simp add: c)
qed

lemma indexedAreStored_init: "indexedAreStored initStore"
  by (simp add: indexedAreStored_def initStore_def filesOf_def)

lemma indexedAreStored_indexFile:
  "indexedAreStored s \<Longrightarrow> indexedAreStored (indexFile b form s)"
  by (auto simp: indexedAreStored_def set_keyToFiles_indexFile storedFiles_indexFile split: if_splits)

lemma indexedAreStored_indexAll:
  "indexedAreStored s \<Longrightarrow> indexedAreStored (indexAll calls s)"
  by (induction calls arbitrary: s) (auto simp: indexedAreStored_indexFile)

lemma candidatesOf_subset_key: "candidatesOf s k vs \<subseteq> set (filesOf (keyToFiles s) k)"
  by (auto simp: candidatesOf_eq)

lemma set_filesMatchingQuery_reachable:
  assumes "q \<noteq> []"
  shows "set (filesMatchingQuery (indexAll calls initStore) q) =
           (\<Inter>(k, vs)\<in>set q. candidatesOf (indexAll calls initStore) k vs)"
proof -
  let ?s = "indexAll calls initStore"
  have inv: "indexedAreStored ?s"
    by (rule indexedAreStored_indexAll [OF indexedAreStored_init])
  from assms obtain k vs where kv: "(k, vs) \<in> set q"
    by (cases q) auto
  have "(\<Inter>(k, vs)\<in>set q. candidatesOf ?s k vs) \<subseteq> candidatesOf ?s k vs"
    using kv by auto
  also have "\<dots> \<subseteq> set (filesOf (keyToFiles ?s) k)"
    by (rule candidatesOf_subset_key)
  also have "\<dots> \<subseteq> set (storedFiles ?s)"
    using inv by (simp add: indexedAreStored_def)
  finally have sub: "(\<Inter>(k, vs)\<in>set q. candidatesOf ?s k vs) \<subseteq> set (storedFiles ?s)" .
  have "set (filesMatchingQuery ?s q) =
          set (storedFiles ?s) \<inter> (\<Inter>(k, vs)\<in>set q. candidatesOf ?s k vs)"
    by (auto simp: filesMatchingQuery_filter [OF assms])
  with sub show ?thesis by blast
qed

subsection \<open>Trimming\<close>

lemma find_spaceSeq:
  "\<forall>w\<in>set spaceSeqs. find (\<lambda>w'. prefix w' (w @ r)) spaceSeqs = Some w"
  unfolding spaceSeqs_def by simp

lemma spaceSeq_nonempty: "\<forall>w\<in>set spaceSeqs. w \<noteq> []"
  unfolding spaceSeqs_def by simp

lemma stripSeqs_spaceSeq:
  assumes "w \<in> set spaceSeqs"
  shows "stripSeqs spaceSeqs (w @ r) = stripSeqs spaceSeqs r"
proof -
  from assms spaceSeq_nonempty have "w \<noteq> []"
    by blast
  then obtain c cs where w: "w = c # cs"
    by (auto simp: neq_Nil_conv)
  have "find (\<lambda>w'. prefix w' (c # cs @ r)) spaceSeqs = Some (c # cs)"
    using find_spaceSeq [of r] assms by (auto simp: w)
  then show ?thesis by (simp add: w)
qed

lemma TrimLeft_spaces:
  "set ws \<subseteq> set spaceSeqs \<Longrightarrow> TrimLeft (concat ws) = []"
  unfolding TrimLeft_def
  by (induction ws) (simp_all add: stripSeqs_spaceSeq)

lemma TrimSpace_spaces:
  "set ws \<subseteq> set spaceSeqs \<Longrightarrow> TrimSpace (concat ws) = []"
  by (simp add: TrimSpace_def TrimLeft_spaces TrimRight_def)

lemma indexValues_skip_blank:
  "indexValues b (filter (\<lambda>v. TrimSpace v \<noteq> []) vals) vtf = indexValues b vals vtf"
  by (induction vals arbitrary: vtf) (simp_all add: Let_def)

lemma indexEntries_skip_blank:
  "indexEntries b
     (filter (\<lambda>(k, vals). TrimSpace k \<noteq> [])
        (map (\<lambda>(k, vals). (k, filter (\<lambda>v. TrimSpace v \<noteq> []) vals)) form)) s
   = indexEntries b form s"
  by (induction form arbitrary: s) (auto simp: Let_def indexValues_skip_blank)


subsection \<open>Evaluation on examples\<close>

lemma trim_examples:
  "TrimSpace ''k'' = ''k''" "TrimSpace ''v'' = ''v''" "TrimSpace ''j'' = ''j''"
  "TrimSpace ''x'' = ''x''" "TrimSpace '' k '' = ''k''" "TrimSpace '' v '' = ''v''"
  "TrimSpace '''' = ''''" "TrimSpace '' '' = ''''"
  "TrimSpace ''color'' = ''color''" "TrimSpace ''size'' = ''size''"
  "TrimSpace ''red'' = ''red''" "TrimSpace ''blue'' = ''blue''" "TrimSpace ''M'' = ''M''"
  by (simp_all add: TrimSpace_def TrimLeft_def TrimRight_def spaceSeqs_def)

lemma fmt_example: "fmtInt 1700000000000000000 = ''1700000000000000000''"
  by (simp add: fmtInt_def fmtNat.simps)

lemmas eval_index = indexFile_def initStore_def Let_def filesOf_def trim_examples

lemmas eval_query = filesMatchingQuery_def candidatesOf_def filterByValues_def

section \<open>Properties\<close>

text \<open>
  C1 (identifiers of submissions made at one instant). The specification asks that any two
  submissions receive distinct identifiers, also when both read the same clock instant.
  \<^verbatim>\<open>writeFormFile\<close> derives the name from the clock reading alone and keeps no counter:
  two accepted POST requests whose clock readings are both 1700000000000000000 are
  both saved as \<^verbatim>\<open>form_1700000000000000000\<close>, and the name is stored twice.
\<close>

theorem same_instant_posts_share_identifier:
  "fst (handlerPost 1700000000000000000 True True [(''color'', [''red''])] initStore)
     = Saved ''form_1700000000000000000''
   \<and> fst (handlerPost 1700000000000000000 True True [(''color'', [''blue''])]
          (snd (handlerPost 1700000000000000000 True True [(''color'', [''red''])] initStore)))
     = Saved ''form_1700000000000000000''
   \<and> storedFiles (snd (handlerPost 1700000000000000000 True True [(''color'', [''blue''])]
          (snd (handlerPost 1700000000000000000 True True [(''color'', [''red''])] initStore))))
     = [''form_1700000000000000000'', ''form_1700000000000000000'']"
  by (simp add: handlerPost_def writeFormFile_def fmt_example eval_index)

text \<open>
  C2 (values are looked up in the global value index). For a queried key with a
  non-empty list of values, the candidate set, and the result of the query on that key
  alone, hold exactly the files listed under the key in \<^verbatim>\<open>keyToFiles\<close> that are listed
  under at least one of the values in \<^verbatim>\<open>valueToFiles\<close>, whatever key the value was
  submitted under. So a file indexed with a field \<open>k\<close> and with the value \<open>v\<close> under
  another field \<open>j\<close> is returned by the query for \<open>v\<close> under \<open>k\<close> (names as they are
  indexed, that is trimmed).
\<close>

theorem value_filter_uses_global_index:
  "(qvs \<noteq> [] \<longrightarrow>
      candidatesOf s qk qvs =
        {fn \<in> set (filesOf (keyToFiles s) qk).
           \<exists>v\<in>set qvs. fn \<in> set (filesOf (valueToFiles s) v)}
      \<and> filesMatchingQuery s [(qk, qvs)] =
          filter (\<lambda>fn. fn \<in> set (filesOf (keyToFiles s) qk) \<and>
                       (\<exists>v\<in>set qvs. fn \<in> set (filesOf (valueToFiles s) v)))
                 (storedFiles s))
   \<and> ((k, vals) \<in> set form \<and> (j, vals') \<in> set form \<and> v \<in> set vals' \<and>
        TrimSpace k \<noteq> [] \<and> TrimSpace j \<noteq> [] \<and> TrimSpace v \<noteq> [] \<longrightarrow>
        b \<in> set (filesMatchingQuery (indexFile b form s') [(TrimSpace k, [TrimSpace v])]))"
proof (intro conjI impI)
  assume ne: "qvs \<noteq> []"
  then show cand: "candidatesOf s qk qvs =
        {fn \<in> set (filesOf (keyToFiles s) qk).
           \<exists>v\<in>set qvs. fn \<in> set (filesOf (valueToFiles s) v)}"
    by (simp add: candidatesOf_eq)
  have "filesMatchingQuery s [(qk, qvs)] =
          filter (\<lambda>fn. fn \<in> candidatesOf s qk qvs) (storedFiles s)"
    by (simp add: filesMatchingQuery_filter)
  also have "\<dots> = filter (\<lambda>fn. fn \<in> set (filesOf (keyToFiles s) qk) \<and>
                       (\<exists>v\<in>set qvs. fn \<in> set (filesOf (valueToFiles s) v)))
                 (storedFiles s)"
    by (simp add: cand)
  finally show "filesMatchingQuery s [(qk, qvs)] =
          filter (\<lambda>fn. fn \<in> set (filesOf (keyToFiles s) qk) \<and>
                       (\<exists>v\<in>set qvs. fn \<in> set (filesOf (valueToFiles s) v)))
                 (storedFiles s)" .
next
  assume a: "(k, vals) \<in> set form \<and> (j, vals') \<in> set form \<and> v \<in> set vals' \<and>
        TrimSpace k \<noteq> [] \<and> TrimSpace j \<noteq> [] \<and> TrimSpace v \<noteq> []"
  let ?s = "indexFile b form s'"
  from a have key: "b \<in> set (filesOf (keyToFiles ?s) (TrimSpace k))"
    by (force simp: set_keyToFiles_indexFile)
  from a have val: "b \<in> set (filesOf (valueToFiles ?s) (TrimSpace v))"
    by (force simp: set_valueToFiles_indexFile)
  from key val have "b \<in> candidatesOf ?s (TrimSpace k) [TrimSpace v]"
    by (simp add: candidatesOf_eq)
  then show "b \<in> set (filesMatchingQuery ?s [(TrimSpace k, [TrimSpace v])])"
    by (simp add: filesMatchingQuery_filter storedFiles_indexFile)
qed

theorem value_filter_uses_global_index_witness:
  "[''v''] \<noteq> []
   \<and> ((''k'', [''x'']) \<in> set [(''k'', [''x'']), (''j'', [''v''])]
      \<and> (''j'', [''v'']) \<in> set [(''k'', [''x'']), (''j'', [''v''])]
      \<and> ''v'' \<in> set [''v'']
      \<and> TrimSpace ''k'' \<noteq> [] \<and> TrimSpace ''j'' \<noteq> [] \<and> TrimSpace ''v'' \<noteq> [])
   \<and> filesMatchingQuery (indexFile ''A'' [(''k'', [''x'']), (''j'', [''v''])] initStore)
        [(''k'', [''v''])] = [''A'']
   \<and> ''A'' \<in> set (filesMatchingQuery (indexFile ''A'' [(''k'', [''x'']), (''j'', [''v''])] initStore)
        [(TrimSpace ''k'', [TrimSpace ''v''])])"
proof -
  let ?s = "indexFile ''A'' [(''k'', [''x'']), (''j'', [''v''])] initStore"
  note inst = value_filter_uses_global_index
    [where qvs = "[''v'']" and s = ?s and qk = "''k''" and k = "''k''" and vals = "[''x'']"
       and form = "[(''k'', [''x'']), (''j'', [''v''])]" and j = "''j''" and vals' = "[''v'']"
       and v = "''v''" and b = "''A''" and s' = initStore]
  have hyp: "(''k'', [''x'']) \<in> set [(''k'', [''x'']), (''j'', [''v''])]
      \<and> (''j'', [''v'']) \<in> set [(''k'', [''x'']), (''j'', [''v''])]
      \<and> ''v'' \<in> set [''v'']
      \<and> TrimSpace ''k'' \<noteq> [] \<and> TrimSpace ''j'' \<noteq> [] \<and> TrimSpace ''v'' \<noteq> []"
    by (simp add: trim_examples)
  from inst have "filesMatchingQuery ?s [(''k'', [''v''])] =
          filter (\<lambda>fn. fn \<in> set (filesOf (keyToFiles ?s) ''k'') \<and>
                       (\<exists>v\<in>set [''v'']. fn \<in> set (filesOf (valueToFiles ?s) v)))
                 (storedFiles ?s)"
    by simp
  then have res: "filesMatchingQuery ?s [(''k'', [''v''])] = [''A'']"
    by (simp add: eval_index)
  from inst hyp have "''A'' \<in> set (filesMatchingQuery ?s [(TrimSpace ''k'', [TrimSpace ''v''])])"
    by blast
  with hyp res show ?thesis by simp
qed

text \<open>
  C3 (round trip). As stated, for every pair \<open>(k, v)\<close> of a submitted form, the property
  fails: a value that is empty after trimming is never indexed, so the form
  \<^verbatim>\<open>{"k": [""]}\<close> is not found by the query \<^verbatim>\<open>{"k": [""]}\<close>.
\<close>

theorem roundtrip_blank_value_counterexample:
  "''form_1'' \<notin> set (filesMatchingQuery (indexFile ''form_1'' [(''k'', [''''])] initStore)
                        [(''k'', [''''])])"
  by (simp add: eval_query eval_index)

text \<open>
  C3, amended. For every pair \<open>(k, v)\<close> of the form whose name and value are non-empty
  after trimming, indexing the form and then querying the trimmed name for the trimmed
  value returns the identifier of the form, from any earlier store. When \<open>k\<close> and \<open>v\<close>
  carry no surrounding white space this is the query \<^verbatim>\<open>{k: [v]}\<close> itself.
\<close>

theorem roundtrip_trimmed:
  assumes "(k, vals) \<in> set form" and "v \<in> set vals"
    and "TrimSpace k \<noteq> []" and "TrimSpace v \<noteq> []"
  shows "b \<in> set (filesMatchingQuery (indexFile b form s) [(TrimSpace k, [TrimSpace v])])"
proof -
  let ?s = "indexFile b form s"
  from assms have "b \<in> set (filesOf (keyToFiles ?s) (TrimSpace k))"
    by (force simp: set_keyToFiles_indexFile)
  moreover from assms have "b \<in> set (filesOf (valueToFiles ?s) (TrimSpace v))"
    by (force simp: set_valueToFiles_indexFile)
  ultimately have "b \<in> candidatesOf ?s (TrimSpace k) [TrimSpace v]"
    by (simp add: candidatesOf_eq)
  then show ?thesis
    by (simp add: filesMatchingQuery_filter storedFiles_indexFile)
qed

theorem roundtrip_trimmed_witness:
  "(''color'', [''red'']) \<in> set [(''color'', [''red'']), (''size'', [''M''])]
   \<and> ''red'' \<in> set [''red'']
   \<and> TrimSpace ''color'' \<noteq> [] \<and> TrimSpace ''red'' \<noteq> []
   \<and> ''form_1'' \<in> set (filesMatchingQuery
         (indexFile ''form_1'' [(''color'', [''red'']), (''size'', [''M''])] initStore)
         [(''color'', [''red''])])"
  using roundtrip_trimmed [of "''color''" "[''red'']" "[(''color'', [''red'']), (''size'', [''M''])]"
          "''red''" "''form_1''" initStore]
  by (simp add: trim_examples)

text \<open>
  C4 (empty query). The empty query returns the stored file names, all of them and in
  the order in which they were stored.
\<close>

theorem empty_query_lists_store: "filesMatchingQuery s [] = storedFiles s"
  by (simp add: filesMatchingQuery_def)

text \<open>
  C5 (intersection). For a non-empty query, the files returned from a store built by
  \<^verbatim>\<open>indexFile\<close> calls are exactly the intersection of the candidate sets of the queried
  keys; in any store the result is the list of stored files filtered by membership in
  every candidate set; it is empty as soon as one candidate set is empty; and two
  queries with the same entries, visited in any order, return the same list.
\<close>

theorem match_is_intersection:
  assumes "q \<noteq> []"
  shows "set (filesMatchingQuery (indexAll calls initStore) q) =
           (\<Inter>(k, vs)\<in>set q. candidatesOf (indexAll calls initStore) k vs)
         \<and> filesMatchingQuery s q =
             filter (\<lambda>fn. \<forall>(k, vs)\<in>set q. fn \<in> candidatesOf s k vs) (storedFiles s)
         \<and> ((\<exists>(k, vs)\<in>set q. candidatesOf s k vs = {}) \<longrightarrow> filesMatchingQuery s q = [])
         \<and> (set q' = set q \<longrightarrow> filesMatchingQuery s q' = filesMatchingQuery s q)"
proof (intro conjI impI)
  show "set (filesMatchingQuery (indexAll calls initStore) q) =
           (\<Inter>(k, vs)\<in>set q. candidatesOf (indexAll calls initStore) k vs)"
    by (rule set_filesMatchingQuery_reachable [OF assms])
  show flt: "filesMatchingQuery s q =
             filter (\<lambda>fn. \<forall>(k, vs)\<in>set q. fn \<in> candidatesOf s k vs) (storedFiles s)"
    by (rule filesMatchingQuery_filter [OF assms])
  {
    assume "\<exists>(k, vs)\<in>set q. candidatesOf s k vs = {}"
    then have "\<And>fn. \<not> (\<forall>(k, vs)\<in>set q. fn \<in> candidatesOf s k vs)"
      by fastforce
    then show "filesMatchingQuery s q = []"
      by (simp add: flt)
  }
  {
    assume eq: "set q' = set q"
    with assms have "q' \<noteq> []" by auto
    then have "filesMatchingQuery s q' =
             filter (\<lambda>fn. \<forall>(k, vs)\<in>set q'. fn \<in> candidatesOf s k vs) (storedFiles s)"
      by (rule filesMatchingQuery_filter)
    then show "filesMatchingQuery s q' = filesMatchingQuery s q"
      by (simp add: flt eq)
  }
qed

theorem match_is_intersection_witness:
  "[(''color'', [''red'']), (''size'', [''L''])] \<noteq> []
   \<and> candidatesOf (indexAll [(''A'', [(''color'', [''red'']), (''size'', [''M''])]),
                               (''B'', [(''color'', [''blue'']), (''size'', [''M''])])] initStore)
        ''size'' [''L''] = {}
   \<and> filesMatchingQuery
        (indexAll [(''A'', [(''color'', [''red'']), (''size'', [''M''])]),
                   (''B'', [(''color'', [''blue'']), (''size'', [''M''])])] initStore)
        [(''color'', [''red'']), (''size'', [''L''])] = []
   \<and> set [(''size'', [''L'']), (''color'', [''red''])] = set [(''color'', [''red'']), (''size'', [''L''])]
   \<and> filesMatchingQuery
        (indexAll [(''A'', [(''color'', [''red'']), (''size'', [''M''])]),
                   (''B'', [(''color'', [''blue'']), (''size'', [''M''])])] initStore)
        [(''size'', [''L'']), (''color'', [''red''])] = []"
proof -
  let ?calls = "[(''A'', [(''color'', [''red'']), (''size'', [''M''])]),
                 (''B'', [(''color'', [''blue'']), (''size'', [''M''])])]"
  let ?q = "[(''color'', [''red'']), (''size'', [''L''])]"
  let ?q' = "[(''size'', [''L'']), (''color'', [''red''])]"
  have ne: "?q \<noteq> []" by simp
  note inst = match_is_intersection [OF ne, of ?calls "indexAll ?calls initStore" ?q']
  have empty: "candidatesOf (indexAll ?calls initStore) ''size'' [''L''] = {}"
    by (simp add: eval_query eval_index)
  then have ex: "\<exists>(k, vs)\<in>set ?q. candidatesOf (indexAll ?calls initStore) k vs = {}"
    by simp
  with inst have r: "filesMatchingQuery (indexAll ?calls initStore) ?q = []"
    by blast
  have perm: "set ?q' = set ?q" by auto
  with inst have "filesMatchingQuery (indexAll ?calls initStore) ?q'
                    = filesMatchingQuery (indexAll ?calls initStore) ?q"
    by blast
  with ne empty r perm show ?thesis by simp
qed

text \<open>
  C6 (insertion order). The result of every query is a subsequence of \<^verbatim>\<open>storedFiles\<close>:
  it is \<^verbatim>\<open>storedFiles\<close> restricted to the files that match, oldest first.
\<close>

theorem result_in_insertion_order:
  "subseq (filesMatchingQuery s q) (storedFiles s)
   \<and> filesMatchingQuery s q =
       filter (\<lambda>fn. fn \<in> set (filesMatchingQuery s q)) (storedFiles s)"
proof (cases "q = []")
  case True
  then show ?thesis by (simp add: filesMatchingQuery_def)
next
  case False
  define P where "P = (\<lambda>fn. \<forall>(k, vs)\<in>set q. fn \<in> candidatesOf s k vs)"
  from False have r: "filesMatchingQuery s q = filter P (storedFiles s)"
    by (simp add: filesMatchingQuery_filter P_def)
  have "filter P (storedFiles s) = filter (\<lambda>fn. fn \<in> set (filter P (storedFiles s))) (storedFiles s)"
    by (rule filter_cong) auto
  then show ?thesis by (simp add: r)
qed

text \<open>
  C7 (blank names and values). A string made of white space only is empty after
  trimming; removing from a form every name and every value that is empty after
  trimming does not change the store that \<^verbatim>\<open>indexFile\<close> produces; and indexing
  \<^verbatim>\<open>{" k ": [" v "]}\<close> gives the same store as indexing \<^verbatim>\<open>{"k": ["v"]}\<close>, so the
  query \<^verbatim>\<open>{"k": ["v"]}\<close> returns the same list on both, a list that holds the new file.
\<close>

theorem blanks_are_skipped:
  "(set ws \<subseteq> set spaceSeqs \<longrightarrow> TrimSpace (concat ws) = [])
   \<and> indexFile b form s =
       indexFile b
         (filter (\<lambda>(k, vals). TrimSpace k \<noteq> [])
            (map (\<lambda>(k, vals). (k, filter (\<lambda>v. TrimSpace v \<noteq> []) vals)) form)) s
   \<and> indexFile b [('' k '', ['' v ''])] s = indexFile b [(''k'', [''v''])] s
   \<and> filesMatchingQuery (indexFile b [('' k '', ['' v ''])] s) [(''k'', [''v''])]
       = filesMatchingQuery (indexFile b [(''k'', [''v''])] s) [(''k'', [''v''])]
   \<and> b \<in> set (filesMatchingQuery (indexFile b [('' k '', ['' v ''])] s) [(''k'', [''v''])])"
proof (intro conjI impI)
  assume "set ws \<subseteq> set spaceSeqs"
  then show "TrimSpace (concat ws) = []"
    by (rule TrimSpace_spaces)
next
  show "indexFile b form s =
       indexFile b
         (filter (\<lambda>(k, vals). TrimSpace k \<noteq> [])
            (map (\<lambda>(k, vals). (k, filter (\<lambda>v. TrimSpace v \<noteq> []) vals)) form)) s"
    by (simp add: indexFile_def indexEntries_skip_blank)
next
  show same: "indexFile b [('' k '', ['' v ''])] s = indexFile b [(''k'', [''v''])] s"
    by (simp add: indexFile_def Let_def trim_examples)
  then show "filesMatchingQuery (indexFile b [('' k '', ['' v ''])] s) [(''k'', [''v''])]
       = filesMatchingQuery (indexFile b [(''k'', [''v''])] s) [(''k'', [''v''])]"
    by simp
  let ?s = "indexFile b [('' k '', ['' v ''])] s"
  have "b \<in> set (filesOf (keyToFiles ?s) ''k'')"
    by (simp add: set_keyToFiles_indexFile trim_examples)
  moreover have "b \<in> set (filesOf (valueToFiles ?s) ''v'')"
    by (simp add: set_valueToFiles_indexFile trim_examples)
  ultimately have "b \<in> candidatesOf ?s ''k'' [''v'']"
    by (simp add: candidatesOf_eq)
  then show "b \<in> set (filesMatchingQuery ?s [(''k'', [''v''])])"
    by (simp add: filesMatchingQuery_filter storedFiles_indexFile)
qed

theorem blanks_are_skipped_witness:
  "set [[CHR 0x20], [CHR 0x09], [CHR 0xC2, CHR 0xA0]] \<subseteq> set spaceSeqs
   \<and> TrimSpace [CHR 0x20, CHR 0x09, CHR 0xC2, CHR 0xA0] = []
   \<and> indexFile ''A'' [([CHR 0x20, CHR 0x09, CHR 0xC2, CHR 0xA0], [''v'']), (''k'', ['' ''])] initStore
       = indexFile ''A'' [(''k'', [])] initStore"
proof -
  have sub: "set [[CHR 0x20], [CHR 0x09], [CHR 0xC2, CHR 0xA0]] \<subseteq> set spaceSeqs"
    by (simp add: spaceSeqs_def)
  note inst = blanks_are_skipped [of "[[CHR 0x20], [CHR 0x09], [CHR 0xC2, CHR 0xA0]]" "''A''"
      "[([CHR 0x20, CHR 0x09, CHR 0xC2, CHR 0xA0], [''v'']), (''k'', ['' ''])]" initStore]
  from inst sub have blank: "TrimSpace [CHR 0x20, CHR 0x09, CHR 0xC2, CHR 0xA0] = []"
    by simp
  from inst have "indexFile ''A''
        [([CHR 0x20, CHR 0x09, CHR 0xC2, CHR 0xA0], [''v'']), (''k'', ['' ''])] initStore
       = indexFile ''A''
         (filter (\<lambda>(k, vals). TrimSpace k \<noteq> [])
            (map (\<lambda>(k, vals). (k, filter (\<lambda>v. TrimSpace v \<noteq> []) vals))
               [([CHR 0x20, CHR 0x09, CHR 0xC2, CHR 0xA0], [''v'']), (''k'', ['' ''])])) initStore"
    by blast
  then have "indexFile ''A''
        [([CHR 0x20, CHR 0x09, CHR 0xC2, CHR 0xA0], [''v'']), (''k'', ['' ''])] initStore
       = indexFile ''A'' [(''k'', [])] initStore"
    by (simp add: blank trim_examples)
  with sub blank show ?thesis by simp
qed

text \<open>
  C8 (unknown field or value). A query with a key that \<^verbatim>\<open>keyToFiles\<close> does not hold, or
  with a key all of whose requested values \<^verbatim>\<open>valueToFiles\<close> does not hold, returns the
  empty list; the function is total and returns no error.
\<close>

theorem unknown_field_or_value_gives_empty:
  "((k, vs) \<in> set q \<and> keyToFiles s k = None \<longrightarrow> filesMatchingQuery s q = [])
   \<and> ((k, vs) \<in> set q \<and> vs \<noteq> [] \<and> (\<forall>v\<in>set vs. valueToFiles s v = None)
        \<longrightarrow> filesMatchingQuery s q = [])"
proof (intro conjI impI)
  assume a: "(k, vs) \<in> set q \<and> keyToFiles s k = None"
  then have "candidatesOf s k vs = {}"
    by (simp add: candidatesOf_eq filesOf_def)
  with a have "\<And>fn. \<not> (\<forall>(k, vs)\<in>set q. fn \<in> candidatesOf s k vs)"
    by fastforce
  moreover from a have "q \<noteq> []" by auto
  ultimately show "filesMatchingQuery s q = []"
    by (simp add: filesMatchingQuery_filter)
next
  assume a: "(k, vs) \<in> set q \<and> vs \<noteq> [] \<and> (\<forall>v\<in>set vs. valueToFiles s v = None)"
  then have "candidatesOf s k vs = {}"
    by (simp add: candidatesOf_eq filesOf_def)
  with a have "\<And>fn. \<not> (\<forall>(k, vs)\<in>set q. fn \<in> candidatesOf s k vs)"
    by fastforce
  moreover from a have "q \<noteq> []" by auto
  ultimately show "filesMatchingQuery s q = []"
    by (simp add: filesMatchingQuery_filter)
qed

theorem unknown_field_or_value_gives_empty_witness:
  "(''nonexistent'', [''x'']) \<in> set [(''nonexistent'', [''x''])]
   \<and> keyToFiles (indexFile ''A'' [(''color'', [''red''])] initStore) ''nonexistent'' = None
   \<and> [''x''] \<noteq> []
   \<and> valueToFiles (indexFile ''A'' [(''color'', [''red''])] initStore) ''x'' = None
   \<and> filesMatchingQuery (indexFile ''A'' [(''color'', [''red''])] initStore)
        [(''nonexistent'', [''x''])] = []"
proof -
  let ?s = "indexFile ''A'' [(''color'', [''red''])] initStore"
  have h1: "(''nonexistent'', [''x'']) \<in> set [(''nonexistent'', [''x''])]" by simp
  have h2: "keyToFiles ?s ''nonexistent'' = None"
    by (simp add: eval_index)
  have h3: "valueToFiles ?s ''x'' = None"
    by (simp add: eval_index)
  from unknown_field_or_value_gives_empty
         [of "''nonexistent''" "[''x'']" "[(''nonexistent'', [''x''])]" ?s] h1 h2
  have "filesMatchingQuery ?s [(''nonexistent'', [''x''])] = []"
    by blast
  with h1 h2 h3 show ?thesis by simp
qed

text \<open>
  C9 (index invariant). As stated, for every pair \<open>k = v\<close> of a recorded form, the property
  fails: a value of white space only is skipped, so after indexing \<^verbatim>\<open>{"k": [" "]}\<close> the
  file is not listed under \<^verbatim>\<open>" "\<close> in \<^verbatim>\<open>valueToFiles\<close>.
\<close>

theorem index_invariant_blank_value_counterexample:
  "''form_1'' \<notin> set (filesOf (valueToFiles (indexAll [(''form_1'', [(''k'', ['' ''])])] initStore))
                        '' '')"
  by (simp add: eval_index)

text \<open>
  C9, amended. After any sequence of \<^verbatim>\<open>indexFile\<close> calls, from any store, for every call
  and every field \<open>k\<close> of its form whose name is non-empty after trimming, the file of the
  call is listed under the trimmed name in \<^verbatim>\<open>keyToFiles\<close>, whatever the values of the
  field are; for every value \<open>v\<close> of that field that is non-empty after trimming, the file
  is also listed under the trimmed value in \<^verbatim>\<open>valueToFiles\<close>; and it is a stored file.
\<close>

theorem index_invariant_trimmed:
  assumes "(b, form) \<in> set calls" and "(k, vals) \<in> set form" and "TrimSpace k \<noteq> []"
  shows "b \<in> set (filesOf (keyToFiles (indexAll calls s)) (TrimSpace k))
         \<and> (v \<in> set vals \<and> TrimSpace v \<noteq> [] \<longrightarrow>
              b \<in> set (filesOf (valueToFiles (indexAll calls s)) (TrimSpace v)))
         \<and> b \<in> set (storedFiles (indexAll calls s))"
  using assms(1)
proof (induction calls arbitrary: s)
  case Nil
  then show ?case by simp
next
  case (Cons c calls)
  show ?case
  proof (cases "(b, form) \<in> set calls")
    case True
    with Cons.IH show ?thesis by (cases c) simp
  next
    case False
    with Cons.prems have c: "c = (b, form)" by simp
    let ?s = "indexFile b form s"
    from assms have "b \<in> set (filesOf (keyToFiles ?s) (TrimSpace k))"
      by (force simp: set_keyToFiles_indexFile)
    then have key: "b \<in> set (filesOf (keyToFiles (indexAll calls ?s)) (TrimSpace k))"
      using keyToFiles_indexAll_mono by blast
    have val: "b \<in> set (filesOf (valueToFiles (indexAll calls ?s)) (TrimSpace v))"
      if v: "v \<in> set vals" "TrimSpace v \<noteq> []"
    proof -
      from assms v have "b \<in> set (filesOf (valueToFiles ?s) (TrimSpace v))"
        by (force simp: set_valueToFiles_indexFile)
      then show ?thesis
        using valueToFiles_indexAll_mono by blast
    qed
    have "b \<in> set (storedFiles (indexAll calls ?s))"
      by (simp add: storedFiles_indexAll storedFiles_indexFile)
    with key val show ?thesis by (simp add: c)
  qed
qed

theorem index_invariant_trimmed_witness:
  "(''A'', [('' k '', ['' '', '' v ''])])
      \<in> set [(''A'', [('' k '', ['' '', '' v ''])]), (''B'', [(''j'', [''x''])])]
   \<and> ('' k '', ['' '', '' v '']) \<in> set [('' k '', ['' '', '' v ''])]
   \<and> TrimSpace '' k '' \<noteq> []
   \<and> '' v '' \<in> set ['' '', '' v ''] \<and> TrimSpace '' v '' \<noteq> []
   \<and> ''A'' \<in> set (filesOf (keyToFiles (indexAll [(''A'', [('' k '', ['' '', '' v ''])]),
                       (''B'', [(''j'', [''x''])])] initStore)) ''k'')
   \<and> ''A'' \<in> set (filesOf (valueToFiles (indexAll [(''A'', [('' k '', ['' '', '' v ''])]),
                       (''B'', [(''j'', [''x''])])] initStore)) ''v'')"
  using index_invariant_trimmed [where b = "''A''" and form = "[('' k '', ['' '', '' v ''])]"
          and calls = "[(''A'', [('' k '', ['' '', '' v ''])]), (''B'', [(''j'', [''x''])])]"
          and k = "'' k ''" and vals = "['' '', '' v '']" and v = "'' v ''" and s = initStore]
  by (simp add: trim_examples)

text \<open>
  C10 (no duplicates in a result). When the calls of \<^verbatim>\<open>indexFile\<close> that built the store
  used pairwise distinct file names, every query returns each name at most once, also
  when the index lists hold a name several times.
\<close>

theorem result_has_no_duplicates:
  assumes "distinct (map fst calls)"
  shows "distinct (filesMatchingQuery (indexAll calls initStore) q)"
proof -
  have "storedFiles (indexAll calls initStore) = map fst calls"
    by (simp add: storedFiles_indexAll initStore_def)
  with assms have "distinct (storedFiles (indexAll calls initStore))"
    by simp
  then show ?thesis
    by (simp add: filesMatchingQuery_def)
qed

theorem result_has_no_duplicates_witness:
  "distinct (map fst [(''A'', [(''k'', [''v'', ''v'']), (''j'', [''v''])]), (''B'', [(''k'', [''v''])])])
   \<and> filesOf (valueToFiles (indexAll [(''A'', [(''k'', [''v'', ''v'']), (''j'', [''v''])]),
                                       (''B'', [(''k'', [''v''])])] initStore)) ''v''
       = [''A'', ''A'', ''A'', ''B'']
   \<and> distinct (filesMatchingQuery
        (indexAll [(''A'', [(''k'', [''v'', ''v'']), (''j'', [''v''])]), (''B'', [(''k'', [''v''])])]
           initStore)
        [(''k'', [''v''])])"
proof -
  let ?calls = "[(''A'', [(''k'', [''v'', ''v'']), (''j'', [''v''])]), (''B'', [(''k'', [''v''])])]"
  have d: "distinct (map fst ?calls)" by simp
  have dup: "filesOf (valueToFiles (indexAll ?calls initStore)) ''v'' = [''A'', ''A'', ''A'', ''B'']"
    by (simp add: eval_index)
  from result_has_no_duplicates [OF d, of "[(''k'', [''v''])]"] d dup show ?thesis
    by simp
qed

end
